theory Spec2Isabelle
  imports
    Main
    "HOL-Library.Word"
    "HOL-Library.Char_ord"
    "HOL-Library.List_Lexorder"
    "HOL-Library.Product_Lexorder"
    "HOL-Library.Multiset"
    "HOL-Library.AList"
begin

section \<open>Data model of \<^verbatim>\<open>scripts/convert_icons.py\<close>\<close>

text \<open>
  Python integers are unbounded and are modelled as \<^typ>\<open>int\<close>; a \<^verbatim>\<open>bytes\<close> value is a
  list of 8-bit words. Exceptions are values of \<open>error + 'a\<close>, the error on the left:
  those the script raises itself, \<^verbatim>\<open>struct.error\<close>, and those that opening or decoding
  a file of the source folder raises. Console output (\<^verbatim>\<open>print\<close>) is not modelled.
\<close>

type_synonym byte = "8 word"
type_synonym bytes = "byte list"

datatype error =
  FileNotFoundError | ValueError | StructError | KeyError
| UnidentifiedImageError | IsADirectoryError | OSError

record IconFrame =
  width :: int
  height :: int
  bit_count :: int
  data :: bytes

subsection \<open>The image library as far as the script uses it\<close>

text \<open>
  Of a PIL image the script reads \<^verbatim>\<open>width\<close>, \<^verbatim>\<open>height\<close> and \<^verbatim>\<open>getbands()\<close>, and calls
  \<^verbatim>\<open>convert("RGBA")\<close>. The size of an image is never negative. The modes are those PIL
  gives to a PNG file; \<^verbatim>\<open>getbands\<close> is PIL's table of band names per mode, and
  \<^verbatim>\<open>convert\<close> returns an image of the same size in the requested mode.
\<close>

datatype mode = Mode_1 | Mode_L | Mode_LA | Mode_I | Mode_P | Mode_RGB | Mode_RGBA

record image =
  img_width :: nat
  img_height :: nat
  img_mode :: mode

fun mode_bands :: "mode \<Rightarrow> string list" where
  "mode_bands Mode_1 = [''1'']"
| "mode_bands Mode_L = [''L'']"
| "mode_bands Mode_LA = [''L'', ''A'']"
| "mode_bands Mode_I = [''I'']"
| "mode_bands Mode_P = [''P'']"
| "mode_bands Mode_RGB = [''R'', ''G'', ''B'']"
| "mode_bands Mode_RGBA = [''R'', ''G'', ''B'', ''A'']"

definition getbands :: "image \<Rightarrow> string list" where
  "getbands im = mode_bands (img_mode im)"

definition convert :: "mode \<Rightarrow> image \<Rightarrow> image" where
  "convert m im = im\<lparr>img_mode := m\<rparr>"

subsection \<open>The source path\<close>

text \<open>
  An entry of the source folder is either a file that PIL decodes, given by what
  \<^verbatim>\<open>Image.open\<close> decodes from it and by the bytes \<^verbatim>\<open>read_bytes\<close> returns, or an entry
  on which \<^verbatim>\<open>Image.open\<close> or \<^verbatim>\<open>convert\<close> raises: \<^verbatim>\<open>UnidentifiedImageError\<close> for a file
  that is no image, \<^verbatim>\<open>FileNotFoundError\<close> for a dangling link, \<^verbatim>\<open>IsADirectoryError\<close> for a
  subfolder, \<^verbatim>\<open>OSError\<close> for truncated image data. A folder is the list of its entries by
  name, in the arbitrary order in which the file system lists them.

  The source path is missing, or exists without being a folder (a regular file), or is
  a folder. \<^verbatim>\<open>Path.exists\<close> holds of the last two, and \<^verbatim>\<open>Path.glob\<close> yields nothing on
  a path that is not a folder.
\<close>

record png_file =
  decoded :: image
  contents :: bytes

datatype dir_entry = Image_File png_file | Broken error

type_synonym folder = "(string \<times> dir_entry) list"

datatype source = Missing | Not_Folder | Folder folder

fun path_exists :: "source \<Rightarrow> bool" where
  "path_exists Missing = False"
| "path_exists Not_Folder = True"
| "path_exists (Folder entries) = True"

fun listing :: "source \<Rightarrow> folder" where
  "listing (Folder entries) = entries"
| "listing Not_Folder = []"
| "listing Missing = []"

section \<open>Frame collection: \<^verbatim>\<open>load_square_pngs\<close>\<close>

text \<open>
  \<^verbatim>\<open>folder.glob("*.png")\<close> keeps the entries whose name ends in \<^verbatim>\<open>.png\<close>, and
  \<^verbatim>\<open>sorted\<close> orders their paths; the paths of one folder differ in the name only, and
  names are compared character by character, as on a POSIX system. Python's sort is
  stable, as \<^const>\<open>sort_key\<close> is.
\<close>

definition matches_png :: "string \<Rightarrow> bool" where
  "matches_png name = (4 \<le> length name \<and> drop (length name - 4) name = ''.png'')"

definition glob_png :: "source \<Rightarrow> folder" where
  "glob_png folder = filter (\<lambda>e. matches_png (fst e)) (listing folder)"

type_synonym size_map = "((int \<times> int) \<times> IconFrame) list"

text \<open>
  The dictionary \<^verbatim>\<open>size_map\<close> is an association list in insertion order;
  \<^const>\<open>AList.update\<close> replaces the value of a key that is present and appends a new key,
  as assignment to a Python dictionary does. The loop stops with the exception of the
  first entry that cannot be opened or converted.
\<close>

fun load_loop :: "folder \<Rightarrow> size_map \<Rightarrow> error + size_map" where
  "load_loop [] size_map = Inr size_map"
| "load_loop (png # rest) size_map =
     (case snd png of
        Broken e \<Rightarrow> Inl e
      | Image_File file \<Rightarrow>
          (let image = convert Mode_RGBA (decoded file) in
           if img_width image \<noteq> img_height image then load_loop rest size_map
           else
             let key = (int (img_width image), int (img_height image));
                 bit_count = (if ''A'' \<in> set (getbands image) then 32 else 24);
                 frame = \<lparr>width = int (img_width image), height = int (img_height image),
                          bit_count = bit_count, data = contents file\<rparr>
             in load_loop rest (AList.update key frame size_map)))"

fun lookup_all :: "size_map \<Rightarrow> (int \<times> int) list \<Rightarrow> error + IconFrame list" where
  "lookup_all size_map [] = Inr []"
| "lookup_all size_map (key # keys) =
     (case map_of size_map key of
        None \<Rightarrow> Inl KeyError
      | Some frame \<Rightarrow>
          (case lookup_all size_map keys of
             Inl e \<Rightarrow> Inl e
           | Inr frames \<Rightarrow> Inr (frame # frames)))"

definition load_square_pngs :: "source \<Rightarrow> error + IconFrame list" where
  "load_square_pngs folder =
     (if \<not> path_exists folder then Inl FileNotFoundError
      else
        case load_loop (sort_key fst (glob_png folder)) [] of
          Inl e \<Rightarrow> Inl e
        | Inr size_map \<Rightarrow>
            if size_map = [] then Inl ValueError
            else lookup_all size_map (sort (map fst size_map)))"

section \<open>Container serializer: \<^verbatim>\<open>write_ico\<close>\<close>

subsection \<open>\<^verbatim>\<open>struct.pack\<close> with a little-endian format\<close>

text \<open>
  The format characters the script uses: \<^verbatim>\<open>B\<close> (1 byte), \<^verbatim>\<open>H\<close> (2 bytes), \<^verbatim>\<open>I\<close>
  (4 bytes), all unsigned, packed without padding under \<^verbatim>\<open><\<close>. A value outside the
  range of its field makes \<^verbatim>\<open>struct.pack\<close> raise \<^verbatim>\<open>struct.error\<close>.
\<close>

datatype fmt = Fmt_B | Fmt_H | Fmt_I

fun fmt_size :: "fmt \<Rightarrow> nat" where
  "fmt_size Fmt_B = 1"
| "fmt_size Fmt_H = 2"
| "fmt_size Fmt_I = 4"

fun le_bytes :: "nat \<Rightarrow> int \<Rightarrow> bytes" where
  "le_bytes 0 v = []"
| "le_bytes (Suc n) v = word_of_int (v mod 256) # le_bytes n (v div 256)"

definition pack_value :: "fmt \<Rightarrow> int \<Rightarrow> error + bytes" where
  "pack_value c v =
     (if 0 \<le> v \<and> v < 256 ^ fmt_size c then Inr (le_bytes (fmt_size c) v)
      else Inl StructError)"

fun struct_pack :: "fmt list \<Rightarrow> int list \<Rightarrow> error + bytes" where
  "struct_pack [] [] = Inr []"
| "struct_pack (c # cs) (v # vs) =
     (case pack_value c v of
        Inl e \<Rightarrow> Inl e
      | Inr b \<Rightarrow>
          (case struct_pack cs vs of
             Inl e \<Rightarrow> Inl e
           | Inr bs \<Rightarrow> Inr (b @ bs)))"
| "struct_pack _ _ = Inl StructError"

subsection \<open>Header, directory and payloads\<close>

definition width_byte :: "IconFrame \<Rightarrow> int" where
  "width_byte frame = (if width frame < 256 then width frame else 0)"

definition height_byte :: "IconFrame \<Rightarrow> int" where
  "height_byte frame = (if height frame < 256 then height frame else 0)"

definition pack_entry :: "IconFrame \<Rightarrow> int \<Rightarrow> error + bytes" where
  "pack_entry frame offset =
     struct_pack [Fmt_B, Fmt_B, Fmt_B, Fmt_B, Fmt_H, Fmt_H, Fmt_I, Fmt_I]
       [width_byte frame, height_byte frame, 0, 0, 1, bit_count frame,
        int (length (data frame)), offset]"

text \<open>
  The \<^verbatim>\<open>for frame in ordered\<close> loop, threading the three variables it updates:
  \<^verbatim>\<open>header\<close>, \<^verbatim>\<open>data_chunks\<close> and \<^verbatim>\<open>offset\<close>.
\<close>

fun write_loop :: "IconFrame list \<Rightarrow> bytes \<Rightarrow> bytes list \<Rightarrow> int \<Rightarrow> error + bytes \<times> bytes list" where
  "write_loop [] header data_chunks offset = Inr (header, data_chunks)"
| "write_loop (frame # rest) header data_chunks offset =
     (case pack_entry frame offset of
        Inl e \<Rightarrow> Inl e
      | Inr entry \<Rightarrow>
          write_loop rest (header @ entry) (data_chunks @ [data frame])
            (offset + int (length (data frame))))"

definition ordered :: "IconFrame list \<Rightarrow> IconFrame list" where
  "ordered images = sort_key width images"

text \<open>
  Everything \<^verbatim>\<open>write_ico\<close> computes before it opens the file: the header with the
  directory, and the payload chunks.
\<close>

definition write_ico_build :: "IconFrame list \<Rightarrow> error + bytes \<times> bytes list" where
  "write_ico_build images =
     (case struct_pack [Fmt_H, Fmt_H, Fmt_H] [0, 1, int (length (ordered images))] of
        Inl e \<Rightarrow> Inl e
      | Inr header \<Rightarrow>
          write_loop (ordered images) header []
            (6 + 16 * int (length (ordered images))))"

text \<open>The bytes the file receives: the header, then every chunk in turn.\<close>

definition container :: "IconFrame list \<Rightarrow> error + bytes" where
  "container images =
     (case write_ico_build images of
        Inl e \<Rightarrow> Inl e
      | Inr (header, data_chunks) \<Rightarrow> Inr (foldl (@) header data_chunks))"

subsection \<open>The sink\<close>

text \<open>
  A path is the list of its components. The file system holds the directories that
  exist and the contents of the files.
\<close>

type_synonym path = "string list"

record filesystem =
  dirs :: "path set"
  files :: "path \<rightharpoonup> bytes"

definition parent :: "path \<Rightarrow> path" where
  "parent p = butlast p"

definition mkdir_parents :: "path \<Rightarrow> filesystem \<Rightarrow> filesystem" where
  "mkdir_parents p fs = fs\<lparr>dirs := dirs fs \<union> set (map (\<lambda>n. take n p) [0..<Suc (length p)])\<rparr>"

definition write_ico :: "IconFrame list \<Rightarrow> path \<Rightarrow> filesystem \<Rightarrow> (error + unit) \<times> filesystem" where
  "write_ico images destination fs =
     (let fs1 = mkdir_parents (parent destination) fs in
      case container images of
        Inl e \<Rightarrow> (Inl e, fs1)
      | Inr content \<Rightarrow> (Inr (), fs1\<lparr>files := (files fs1)(destination \<mapsto> content)\<rparr>))"


section \<open>Reading a container back\<close>

text \<open>
  The fields of the ICO layout, read from the bytes of a container: a little-endian
  unsigned number of \<open>n\<close> bytes at a position, and the fields of directory entry \<open>k\<close>,
  which starts at byte \<open>6 + 16 * k\<close>.
\<close>

fun le_value :: "bytes \<Rightarrow> int" where
  "le_value [] = 0"
| "le_value (b # bs) = uint b + 256 * le_value bs"

definition field_at :: "bytes \<Rightarrow> nat \<Rightarrow> nat \<Rightarrow> int" where
  "field_at content pos n = le_value (take n (drop pos content))"

definition entry_width_byte :: "bytes \<Rightarrow> nat \<Rightarrow> int" where
  "entry_width_byte content k = field_at content (6 + 16 * k) 1"

definition entry_height_byte :: "bytes \<Rightarrow> nat \<Rightarrow> int" where
  "entry_height_byte content k = field_at content (7 + 16 * k) 1"

definition entry_planes :: "bytes \<Rightarrow> nat \<Rightarrow> int" where
  "entry_planes content k = field_at content (10 + 16 * k) 2"

definition entry_bit_count :: "bytes \<Rightarrow> nat \<Rightarrow> int" where
  "entry_bit_count content k = field_at content (12 + 16 * k) 2"

definition entry_size :: "bytes \<Rightarrow> nat \<Rightarrow> int" where
  "entry_size content k = field_at content (14 + 16 * k) 4"

definition entry_offset :: "bytes \<Rightarrow> nat \<Rightarrow> int" where
  "entry_offset content k = field_at content (18 + 16 * k) 4"

text \<open>
  The convention of the format for the two dimension bytes: a reader takes the byte 0
  to mean 256.
\<close>

definition reader_dimension :: "int \<Rightarrow> int" where
  "reader_dimension b = (if b = 0 then 256 else b)"

section \<open>Auxiliary notions for the proofs\<close>

text \<open>The length of a frame's payload, as the Python \<^verbatim>\<open>len(frame.data)\<close>.\<close>

definition payload_len :: "IconFrame \<Rightarrow> int" where
  "payload_len frame = int (length (data frame))"

text \<open>The sixteen bytes of a directory entry whose eight values all fit their fields.\<close>

definition entry_bytes :: "IconFrame \<Rightarrow> int \<Rightarrow> bytes" where
  "entry_bytes frame offset =
     le_bytes 1 (width_byte frame) @ le_bytes 1 (height_byte frame) @ le_bytes 1 0 @
     le_bytes 1 0 @ le_bytes 2 1 @ le_bytes 2 (bit_count frame) @
     le_bytes 4 (payload_len frame) @ le_bytes 4 offset"

definition entry_fits :: "IconFrame \<Rightarrow> int \<Rightarrow> bool" where
  "entry_fits frame offset \<longleftrightarrow>
     0 \<le> width frame \<and> 0 \<le> height frame \<and>
     0 \<le> bit_count frame \<and> bit_count frame < 65536 \<and>
     payload_len frame < 4294967296 \<and> 0 \<le> offset \<and> offset < 4294967296"

text \<open>The directory of a list of frames whose first payload starts at a given offset.\<close>

fun directory :: "IconFrame list \<Rightarrow> int \<Rightarrow> bytes" where
  "directory [] offset = []"
| "directory (frame # rest) offset =
     entry_bytes frame offset @ directory rest (offset + payload_len frame)"

fun directory_fits :: "IconFrame list \<Rightarrow> int \<Rightarrow> bool" where
  "directory_fits [] offset = True"
| "directory_fits (frame # rest) offset =
     (entry_fits frame offset \<and> directory_fits rest (offset + payload_len frame))"

text \<open>The offset of payload \<open>k\<close> when the payloads of a list are packed from \<open>start\<close>.\<close>

definition packed_offset :: "int \<Rightarrow> IconFrame list \<Rightarrow> nat \<Rightarrow> int" where
  "packed_offset start frames k = start + sum_list (map payload_len (take k frames))"

text \<open>
  The entries of a folder in the order in which the loop visits them, the files among
  them that PIL decodes, and the exceptions of the others.
\<close>

definition visited :: "source \<Rightarrow> folder" where
  "visited folder = sort_key fst (glob_png folder)"

fun image_files :: "folder \<Rightarrow> (string \<times> png_file) list" where
  "image_files [] = []"
| "image_files (e # rest) =
     (case snd e of
        Image_File file \<Rightarrow> (fst e, file) # image_files rest
      | Broken x \<Rightarrow> image_files rest)"

fun broken_errors :: "folder \<Rightarrow> error list" where
  "broken_errors [] = []"
| "broken_errors (e # rest) =
     (case snd e of
        Image_File file \<Rightarrow> broken_errors rest
      | Broken x \<Rightarrow> x # broken_errors rest)"

definition undecodable :: "source \<Rightarrow> error list" where
  "undecodable folder = broken_errors (visited folder)"

text \<open>What one iteration of the collection loop stores for a square file.\<close>

definition is_square :: "png_file \<Rightarrow> bool" where
  "is_square f \<longleftrightarrow> img_width (decoded f) = img_height (decoded f)"

definition key_of :: "png_file \<Rightarrow> int \<times> int" where
  "key_of f = (int (img_width (decoded f)), int (img_height (decoded f)))"

definition frame_of :: "png_file \<Rightarrow> IconFrame" where
  "frame_of f =
     \<lparr>width = int (img_width (decoded f)), height = int (img_height (decoded f)),
      bit_count = (if ''A'' \<in> set (getbands (convert Mode_RGBA (decoded f))) then 32 else 24),
      data = contents f\<rparr>"

text \<open>The loop on a list of files that are all decoded.\<close>

fun collect_loop :: "(string \<times> png_file) list \<Rightarrow> size_map \<Rightarrow> size_map" where
  "collect_loop [] size_map = size_map"
| "collect_loop (p # rest) size_map =
     (if is_square (snd p)
      then collect_loop rest (AList.update (key_of (snd p)) (frame_of (snd p)) size_map)
      else collect_loop rest size_map)"

text \<open>The square PNG files of a folder, in the order in which the loop visits them.\<close>

definition square_pngs :: "source \<Rightarrow> (string \<times> png_file) list" where
  "square_pngs folder = filter (\<lambda>p. is_square (snd p)) (image_files (visited folder))"

text \<open>
  The bit depth of a source image in the words of the specification: 32 if its channel
  set includes an alpha channel, 24 otherwise.
\<close>

definition spec_bit_depth :: "image \<Rightarrow> int" where
  "spec_bit_depth im = (if ''A'' \<in> set (getbands im) then 32 else 24)"

text \<open>The six header bytes for \<open>n\<close> frames, and when a whole frame list can be packed.\<close>

definition header_bytes :: "nat \<Rightarrow> bytes" where
  "header_bytes n = le_bytes 2 0 @ le_bytes 2 1 @ le_bytes 2 (int n)"

definition container_fits :: "IconFrame list \<Rightarrow> bool" where
  "container_fits images \<longleftrightarrow>
     length images < 65536 \<and>
     directory_fits (ordered images) (6 + 16 * int (length images))"

text \<open>A small frame list and the container it serializes to, for concrete instances.\<close>

definition example_frames :: "IconFrame list" where
  "example_frames =
     [\<lparr>width = 16, height = 16, bit_count = 24, data = [1, 2]\<rparr>,
      \<lparr>width = 32, height = 32, bit_count = 32, data = [3, 4, 5]\<rparr>]"

definition example_container :: bytes where
  "example_container =
     [0, 0, 1, 0, 2, 0,
      16, 16, 0, 0, 1, 0, 24, 0, 2, 0, 0, 0, 38, 0, 0, 0,
      32, 32, 0, 0, 1, 0, 32, 0, 3, 0, 0, 0, 40, 0, 0, 0,
      1, 2, 3, 4, 5]"


text \<open>Frames at the edge of the one-byte dimension fields and of the 32-bit size field.\<close>

definition frame_256 :: IconFrame where
  "frame_256 = \<lparr>width = 256, height = 256, bit_count = 32, data = [7]\<rparr>"

definition container_256 :: bytes where
  "container_256 =
     [0, 0, 1, 0, 1, 0,  0, 0, 0, 0, 1, 0, 32, 0, 1, 0, 0, 0, 22, 0, 0, 0,  7]"

definition frame_512 :: IconFrame where
  "frame_512 = \<lparr>width = 512, height = 512, bit_count = 32, data = [7]\<rparr>"



text \<open>
  The dictionary the collection loop builds for a folder whose files are all decoded,
  and the frame list that \<^verbatim>\<open>load_square_pngs\<close> returns from it when it is not empty.
\<close>

definition collected :: "source \<Rightarrow> size_map" where
  "collected folder = collect_loop (image_files (visited folder)) []"

definition collected_frames :: "source \<Rightarrow> IconFrame list" where
  "collected_frames folder =
     map (\<lambda>k. the (map_of (collected folder) k)) (sort (map fst (collected folder)))"

text \<open>Files, folders and a file system for concrete instances.\<close>

definition rgb_icon :: png_file where
  "rgb_icon =
     \<lparr>decoded = \<lparr>img_width = 16, img_height = 16, img_mode = Mode_RGB\<rparr>,
      contents = [1, 2, 3]\<rparr>"

definition rgba_icon :: png_file where
  "rgba_icon =
     \<lparr>decoded = \<lparr>img_width = 16, img_height = 16, img_mode = Mode_RGBA\<rparr>,
      contents = [4, 5]\<rparr>"

definition large_icon :: png_file where
  "large_icon =
     \<lparr>decoded = \<lparr>img_width = 32, img_height = 32, img_mode = Mode_RGBA\<rparr>,
      contents = [7, 8, 9, 10]\<rparr>"

definition wide_image :: png_file where
  "wide_image =
     \<lparr>decoded = \<lparr>img_width = 4, img_height = 5, img_mode = Mode_L\<rparr>, contents = [6]\<rparr>"

definition icon_256 :: png_file where
  "icon_256 =
     \<lparr>decoded = \<lparr>img_width = 256, img_height = 256, img_mode = Mode_RGBA\<rparr>,
      contents = [7]\<rparr>"

definition icon_512 :: png_file where
  "icon_512 =
     \<lparr>decoded = \<lparr>img_width = 512, img_height = 512, img_mode = Mode_RGBA\<rparr>,
      contents = [8]\<rparr>"

definition icon_folder :: folder where
  "icon_folder =
     [(''large.png'', Image_File large_icon), (''b.png'', Image_File rgba_icon),
      (''wide.png'', Image_File wide_image), (''a.png'', Image_File rgb_icon),
      (''a.txt'', Broken UnidentifiedImageError)]"

definition icon_frames :: "IconFrame list" where
  "icon_frames =
     [\<lparr>width = 16, height = 16, bit_count = 32, data = [4, 5]\<rparr>,
      \<lparr>width = 32, height = 32, bit_count = 32, data = [7, 8, 9, 10]\<rparr>]"

definition icon_container :: bytes where
  "icon_container =
     [0, 0, 1, 0, 2, 0,
      16, 16, 0, 0, 1, 0, 32, 0, 2, 0, 0, 0, 38, 0, 0, 0,
      32, 32, 0, 0, 1, 0, 32, 0, 4, 0, 0, 0, 40, 0, 0, 0,
      4, 5, 7, 8, 9, 10]"

definition mixed_folder :: folder where
  "mixed_folder = [(''b.png'', Image_File rgb_icon), (''a.png'', Image_File rgba_icon)]"

definition mixed_container :: bytes where
  "mixed_container =
     [0, 0, 1, 0, 1, 0,
      16, 16, 0, 0, 1, 0, 32, 0, 3, 0, 0, 0, 22, 0, 0, 0,
      1, 2, 3]"

definition no_square_folder :: folder where
  "no_square_folder =
     [(''wide.png'', Image_File wide_image), (''a.txt'', Broken UnidentifiedImageError)]"

definition junk_folder :: folder where
  "junk_folder =
     [(''icon.png'', Image_File rgb_icon), (''junk.png'', Broken UnidentifiedImageError)]"

definition large_folder :: folder where
  "large_folder =
     [(''icon_512.png'', Image_File icon_512), (''icon_256.png'', Image_File icon_256)]"

definition large_frames :: "IconFrame list" where
  "large_frames =
     [\<lparr>width = 256, height = 256, bit_count = 32, data = [7]\<rparr>,
      \<lparr>width = 512, height = 512, bit_count = 32, data = [8]\<rparr>]"

definition large_container :: bytes where
  "large_container =
     [0, 0, 1, 0, 2, 0,
      0, 0, 0, 0, 1, 0, 32, 0, 1, 0, 0, 0, 38, 0, 0, 0,
      0, 0, 0, 0, 1, 0, 32, 0, 1, 0, 0, 0, 39, 0, 0, 0,
      7, 8]"


section \<open>Properties of \<^verbatim>\<open>struct.pack\<close> and of the directory\<close>

lemma length_le_bytes [simp]: "length (le_bytes n v) = n"
  by (induction n arbitrary: v) auto

lemma le_value_le_bytes: "0 \<le> v \<Longrightarrow> v < 256 ^ n \<Longrightarrow> le_value (le_bytes n v) = v"
proof (induction n arbitrary: v)
  case 0
  then show ?case by simp
next
  case (Suc n)
  have "v < 256 * 256 ^ n" using Suc.prems by simp
  then have "v div 256 < 256 ^ n" by linarith
  moreover have "0 \<le> v div 256" using Suc.prems by simp
  ultimately have IH: "le_value (le_bytes n (v div 256)) = v div 256" using Suc.IH by blast
  have "uint (word_of_int (v mod 256) :: byte) = v mod 256"
    by (simp add: uint_word_of_int)
  then show ?case using IH by simp
qed

lemma pack_entry_fits: "entry_fits frame offset \<Longrightarrow> pack_entry frame offset = Inr (entry_bytes frame offset)"
  by (simp add: pack_entry_def entry_fits_def entry_bytes_def pack_value_def width_byte_def height_byte_def payload_len_def)

lemma pack_entry_not_fits: "\<not> entry_fits frame offset \<Longrightarrow> pack_entry frame offset = Inl StructError"
  by (auto simp add: pack_entry_def entry_fits_def pack_value_def width_byte_def height_byte_def payload_len_def split: sum.splits)

lemma write_loop_fits:
  "directory_fits frames offset \<Longrightarrow>
   write_loop frames header chunks offset =
     Inr (header @ directory frames offset, chunks @ map data frames)"
  by (induction frames arbitrary: header chunks offset)
     (simp_all add: pack_entry_fits payload_len_def)

lemma write_loop_not_fits:
  "\<not> directory_fits frames offset \<Longrightarrow> write_loop frames header chunks offset = Inl StructError"
proof (induction frames arbitrary: header chunks offset)
  case Nil
  then show ?case by simp
next
  case (Cons frame rest)
  show ?case
  proof (cases "entry_fits frame offset")
    case True
    with Cons.prems have "\<not> directory_fits rest (offset + payload_len frame)" by simp
    then show ?thesis using True Cons.IH by (simp add: pack_entry_fits payload_len_def)
  next
    case False
    then show ?thesis by (simp add: pack_entry_not_fits)
  qed
qed

lemma foldl_append_concat: "foldl (@) header chunks = header @ concat chunks"
  by (induction chunks arbitrary: header) simp_all

lemma length_ordered [simp]: "length (ordered images) = length images"
  by (simp add: ordered_def)

lemma pack_header:
  "struct_pack [Fmt_H, Fmt_H, Fmt_H] [0, 1, int n] =
     (if n < 65536 then Inr (header_bytes n) else Inl StructError)"
  by (simp add: pack_value_def header_bytes_def)

lemma container_fits_eq:
  "container_fits images \<Longrightarrow>
   container images =
     Inr (header_bytes (length images) @
          directory (ordered images) (6 + 16 * int (length images)) @
          concat (map data (ordered images)))"
  by (simp add: container_def write_ico_build_def pack_header container_fits_def
      write_loop_fits foldl_append_concat del: struct_pack.simps)

lemma container_not_fits:
  "\<not> container_fits images \<Longrightarrow> container images = Inl StructError"
  by (auto simp add: container_def write_ico_build_def pack_header container_fits_def
      write_loop_not_fits simp del: struct_pack.simps)

lemma container_Inr_iff:
  "container images = Inr content \<longleftrightarrow>
     container_fits images \<and>
     content = header_bytes (length images) @
          directory (ordered images) (6 + 16 * int (length images)) @
          concat (map data (ordered images))"
  by (cases "container_fits images") (auto simp: container_fits_eq container_not_fits)

lemma length_entry_bytes [simp]: "length (entry_bytes frame offset) = 16"
  by (simp add: entry_bytes_def)

lemma length_directory [simp]: "length (directory frames offset) = 16 * length frames"
  by (induction frames arbitrary: offset) simp_all

lemma packed_offset_0 [simp]: "packed_offset start frames 0 = start"
  by (simp add: packed_offset_def)

lemma packed_offset_Cons_Suc [simp]:
  "packed_offset start (frame # rest) (Suc k) = packed_offset (start + payload_len frame) rest k"
  by (simp add: packed_offset_def)

lemma directory_split:
  "k < length frames \<Longrightarrow>
   directory frames offset =
     directory (take k frames) offset @
     entry_bytes (frames ! k) (packed_offset offset frames k) @
     directory (drop (Suc k) frames) (packed_offset offset frames (Suc k))"
proof (induction frames arbitrary: k offset)
  case Nil
  then show ?case by simp
next
  case (Cons frame rest)
  show ?case
  proof (cases k)
    case 0
    then show ?thesis by (simp add: packed_offset_def)
  next
    case (Suc j)
    with Cons.prems have "j < length rest" by simp
    from Cons.IH [OF this, of "offset + payload_len frame"] Suc show ?thesis by simp
  qed
qed

lemma directory_fits_nth:
  "directory_fits frames offset \<Longrightarrow> k < length frames \<Longrightarrow>
   entry_fits (frames ! k) (packed_offset offset frames k)"
proof (induction frames arbitrary: k offset)
  case Nil
  then show ?case by simp
next
  case (Cons frame rest)
  then show ?case by (cases k) simp_all
qed

lemma take_drop_entry:
  assumes "k < length frames" and "j + n \<le> 16" and "length hdr = 6"
  shows "take n (drop (6 + 16 * k + j) (hdr @ directory frames offset @ payloads)) =
         take n (drop j (entry_bytes (frames ! k) (packed_offset offset frames k)))"
proof -
  let ?pre = "hdr @ directory (take k frames) offset"
  let ?e = "entry_bytes (frames ! k) (packed_offset offset frames k)"
  let ?post = "directory (drop (Suc k) frames) (packed_offset offset frames (Suc k)) @ payloads"
  have len: "length ?pre = 6 + 16 * k" using assms by simp
  have "hdr @ directory frames offset @ payloads = ?pre @ ?e @ ?post"
    using directory_split [OF assms(1), of offset] by simp
  then have "drop (6 + 16 * k + j) (hdr @ directory frames offset @ payloads) =
      drop (length ?pre + j) (?pre @ ?e @ ?post)"
    using len by simp
  also have "\<dots> = drop j (?e @ ?post)"
    by (simp only: drop_drop [symmetric] add.commute [of _ j] drop_append) simp
  finally show ?thesis using assms(2) by simp
qed

lemma width_byte_range: "0 \<le> width frame \<Longrightarrow> 0 \<le> width_byte frame \<and> width_byte frame < 256"
  by (simp add: width_byte_def)

lemma height_byte_range: "0 \<le> height frame \<Longrightarrow> 0 \<le> height_byte frame \<and> height_byte frame < 256"
  by (simp add: height_byte_def)

lemma entry_bytes_fields:
  assumes "entry_fits frame offset"
  shows "le_value (take 1 (drop 0 (entry_bytes frame offset))) = width_byte frame"
    and "le_value (take 1 (drop 1 (entry_bytes frame offset))) = height_byte frame"
    and "le_value (take 2 (drop 4 (entry_bytes frame offset))) = 1"
    and "le_value (take 2 (drop 6 (entry_bytes frame offset))) = bit_count frame"
    and "le_value (take 4 (drop 8 (entry_bytes frame offset))) = payload_len frame"
    and "le_value (take 4 (drop 12 (entry_bytes frame offset))) = offset"
proof -
  have w: "0 \<le> width_byte frame" "width_byte frame < 256 ^ 1"
    using assms width_byte_range [of frame] by (simp_all add: entry_fits_def)
  have h: "0 \<le> height_byte frame" "height_byte frame < 256 ^ 1"
    using assms height_byte_range [of frame] by (simp_all add: entry_fits_def)
  have b: "0 \<le> bit_count frame" "bit_count frame < 256 ^ 2"
    using assms by (simp_all add: entry_fits_def)
  have p: "0 \<le> payload_len frame" "payload_len frame < 256 ^ 4"
    using assms by (simp_all add: entry_fits_def payload_len_def)
  have off: "0 \<le> offset" "offset < 256 ^ 4"
    using assms by (simp_all add: entry_fits_def)
  show "le_value (take 1 (drop 0 (entry_bytes frame offset))) = width_byte frame"
    using le_value_le_bytes [OF w] by (simp add: entry_bytes_def)
  show "le_value (take 1 (drop 1 (entry_bytes frame offset))) = height_byte frame"
    using le_value_le_bytes [OF h] by (simp add: entry_bytes_def)
  show "le_value (take 2 (drop 4 (entry_bytes frame offset))) = 1"
    using le_value_le_bytes [of 1 2] by (simp add: entry_bytes_def)
  show "le_value (take 2 (drop 6 (entry_bytes frame offset))) = bit_count frame"
    using le_value_le_bytes [OF b] by (simp add: entry_bytes_def)
  show "le_value (take 4 (drop 8 (entry_bytes frame offset))) = payload_len frame"
    using le_value_le_bytes [OF p] by (simp add: entry_bytes_def)
  show "le_value (take 4 (drop 12 (entry_bytes frame offset))) = offset"
    using le_value_le_bytes [OF off] by (simp add: entry_bytes_def)
qed

lemma length_header_bytes [simp]: "length (header_bytes n) = 6"
  by (simp add: header_bytes_def)

lemma container_entry_fields:
  assumes "container images = Inr content" and "k < length images"
  shows "entry_width_byte content k = width_byte (ordered images ! k)"
    and "entry_height_byte content k = height_byte (ordered images ! k)"
    and "entry_planes content k = 1"
    and "entry_bit_count content k = bit_count (ordered images ! k)"
    and "entry_size content k = payload_len (ordered images ! k)"
    and "entry_offset content k =
           packed_offset (6 + 16 * int (length images)) (ordered images) k"
proof -
  let ?start = "6 + 16 * int (length images)"
  from assms(1) have fits: "container_fits images"
    and content: "content = header_bytes (length images) @
          directory (ordered images) ?start @ concat (map data (ordered images))"
    by (simp_all add: container_Inr_iff)
  have k: "k < length (ordered images)" using assms(2) by simp
  have ef: "entry_fits (ordered images ! k) (packed_offset ?start (ordered images) k)"
    using fits k by (simp add: container_fits_def directory_fits_nth)
  have td: "j + n \<le> 16 \<Longrightarrow> take n (drop (6 + 16 * k + j) content) =
      take n (drop j (entry_bytes (ordered images ! k) (packed_offset ?start (ordered images) k)))"
    for j n
    unfolding content by (rule take_drop_entry [OF k]) simp_all
  show "entry_width_byte content k = width_byte (ordered images ! k)"
    using td [of 0 1] entry_bytes_fields(1) [OF ef] by (simp add: entry_width_byte_def field_at_def)
  show "entry_height_byte content k = height_byte (ordered images ! k)"
    using td [of 1 1] entry_bytes_fields(2) [OF ef]
    by (simp add: entry_height_byte_def field_at_def add.commute)
  show "entry_planes content k = 1"
    using td [of 4 2] entry_bytes_fields(3) [OF ef]
    by (simp add: entry_planes_def field_at_def add.commute)
  show "entry_bit_count content k = bit_count (ordered images ! k)"
    using td [of 6 2] entry_bytes_fields(4) [OF ef]
    by (simp add: entry_bit_count_def field_at_def add.commute)
  show "entry_size content k = payload_len (ordered images ! k)"
    using td [of 8 4] entry_bytes_fields(5) [OF ef]
    by (simp add: entry_size_def field_at_def add.commute)
  show "entry_offset content k = packed_offset ?start (ordered images) k"
    using td [of 12 4] entry_bytes_fields(6) [OF ef]
    by (simp add: entry_offset_def field_at_def add.commute)
qed

lemma packed_offset_eq_length:
  "packed_offset start frames k = start + int (length (concat (map data (take k frames))))"
proof -
  have "sum_list (map payload_len xs) = int (length (concat (map data xs)))" for xs
    by (induction xs) (simp_all add: payload_len_def)
  then show ?thesis by (simp add: packed_offset_def)
qed

lemma container_length:
  assumes "container images = Inr content"
  shows "int (length content) =
    6 + 16 * int (length images) + sum_list (map payload_len (ordered images))"
proof -
  have "sum_list (map payload_len xs) = int (length (concat (map data xs)))" for xs
    by (induction xs) (simp_all add: payload_len_def)
  then show ?thesis using assms by (simp add: container_Inr_iff)
qed

lemma container_payload:
  assumes "container images = Inr content" and "k < length images"
  shows "take (length (data (ordered images ! k)))
           (drop (nat (packed_offset (6 + 16 * int (length images)) (ordered images) k)) content) =
         data (ordered images ! k)"
proof -
  let ?fs = "ordered images"
  let ?pre = "header_bytes (length images) @ directory ?fs (6 + 16 * int (length images)) @
      concat (map data (take k ?fs))"
  have k: "k < length ?fs" using assms(2) by simp
  have "?fs = take k ?fs @ ?fs ! k # drop (Suc k) ?fs"
    using k by (rule id_take_nth_drop)
  then have "concat (map data ?fs) =
      concat (map data (take k ?fs)) @ data (?fs ! k) @ concat (map data (drop (Suc k) ?fs))"
    by (metis concat.simps(2) concat_append list.simps(9) map_append)
  then have content: "content = ?pre @ data (?fs ! k) @ concat (map data (drop (Suc k) ?fs))"
    using assms(1) by (simp add: container_Inr_iff)
  have "nat (packed_offset (6 + 16 * int (length images)) ?fs k) = length ?pre"
    by (simp add: packed_offset_eq_length)
  then have "drop (nat (packed_offset (6 + 16 * int (length images)) ?fs k)) content =
      data (?fs ! k) @ concat (map data (drop (Suc k) ?fs))"
    using content by (metis append_eq_conv_conj)
  then show ?thesis by simp
qed

lemma container_example: "container example_frames = Inr example_container"
  by (simp add: example_frames_def example_container_def container_def write_ico_build_def
      ordered_def pack_entry_def pack_value_def width_byte_def height_byte_def
      numeral_2_eq_2 numeral_Bit0 [of "num.Bit0 num.One", where ?'a = nat])


lemma container_frame_256: "container [frame_256] = Inr container_256"
  by (simp add: frame_256_def container_256_def container_def write_ico_build_def
      ordered_def pack_entry_def pack_value_def width_byte_def height_byte_def
      numeral_2_eq_2 numeral_Bit0 [of "num.Bit0 num.One", where ?'a = nat])

lemma container_frame_512: "container [frame_512] = Inr container_256"
  by (simp add: frame_512_def container_256_def container_def write_ico_build_def
      ordered_def pack_entry_def pack_value_def width_byte_def height_byte_def
      numeral_2_eq_2 numeral_Bit0 [of "num.Bit0 num.One", where ?'a = nat])

lemma container_nth_fits:
  assumes "container images = Inr content" and "k < length images"
  shows "entry_fits (ordered images ! k)
           (packed_offset (6 + 16 * int (length images)) (ordered images) k)"
proof -
  from assms(1) have "container_fits images" by (simp add: container_Inr_iff)
  then have "directory_fits (ordered images) (6 + 16 * int (length images))"
    by (simp add: container_fits_def)
  moreover have "k < length (ordered images)" using assms(2) by simp
  ultimately show ?thesis by (rule directory_fits_nth)
qed

lemma filter_same_key:
  "distinct (map f xs) \<Longrightarrow> k \<in> set xs \<Longrightarrow> filter (\<lambda>x. f k = f x) xs = [k]"
proof (induction xs)
  case Nil
  then show ?case by simp
next
  case (Cons x xs)
  show ?case
  proof (cases "k = x")
    case True
    have "filter (\<lambda>y. f x = f y) xs = []"
      using Cons.prems(1) by (auto simp: filter_empty_conv)
    with True show ?thesis by simp
  next
    case False
    with Cons.prems have "k \<in> set xs" by simp
    moreover have "f x \<notin> f ` set xs" using Cons.prems(1) by simp
    with \<open>k \<in> set xs\<close> have "f k \<noteq> f x" by (metis imageI)
    ultimately show ?thesis using Cons by simp
  qed
qed

lemma ordered_permutation:
  assumes "distinct (map width xs)" and "mset ys = mset xs"
  shows "ordered ys = ordered xs"
proof -
  have dy: "distinct (map width ys)"
    using assms by (metis mset_eq_imp_distinct_iff mset_map)
  have "sort_key width xs = sort_key width ys"
  proof (rule properties_for_sort_key)
    show "mset (sort_key width ys) = mset xs" using assms(2) by simp
    show "sorted (map width (sort_key width ys))" by simp
    fix k assume "k \<in> set (sort_key width ys)"
    then have ky: "k \<in> set ys" by simp
    then have kx: "k \<in> set xs" using assms(2) by (metis mset_eq_setD)
    have "distinct (map width (sort_key width ys))"
      using dy by (metis distinct_map distinct_sort set_sort)
    then have "filter (\<lambda>x. width k = width x) (sort_key width ys) = [k]"
      using ky by (intro filter_same_key) simp_all
    moreover have "filter (\<lambda>x. width k = width x) xs = [k]"
      using assms(1) kx by (rule filter_same_key)
    ultimately show "filter (\<lambda>x. width k = width x) (sort_key width ys) =
        filter (\<lambda>x. width k = width x) xs" by simp
  qed
  then show ?thesis by (simp add: ordered_def)
qed


lemma payload_sum_nonneg: "0 \<le> sum_list (map payload_len frames)"
  by (induction frames) (simp_all add: payload_len_def)

lemma directory_fits_bound:
  assumes "\<forall>f \<in> set frames. 0 \<le> width f \<and> 0 \<le> height f \<and> 0 \<le> bit_count f \<and> bit_count f < 65536"
    and "0 \<le> offset"
    and "offset + sum_list (map payload_len frames) < 4294967296"
  shows "directory_fits frames offset"
  using assms
proof (induction frames arbitrary: offset)
  case Nil
  then show ?case by simp
next
  case (Cons frame rest)
  have nn: "0 \<le> payload_len frame" by (simp add: payload_len_def)
  have rest_nn: "0 \<le> sum_list (map payload_len rest)" by (rule payload_sum_nonneg)
  have "entry_fits frame offset"
    using Cons.prems nn rest_nn by (simp add: entry_fits_def)
  moreover have "directory_fits rest (offset + payload_len frame)"
  proof (rule Cons.IH)
    show "\<forall>f \<in> set rest. 0 \<le> width f \<and> 0 \<le> height f \<and> 0 \<le> bit_count f \<and> bit_count f < 65536"
      using Cons.prems(1) by simp
    show "0 \<le> offset + payload_len frame" using Cons.prems(2) nn by simp
    show "offset + payload_len frame + sum_list (map payload_len rest) < 4294967296"
      using Cons.prems(3) by simp
  qed
  ultimately show ?case by simp
qed

lemma container_fits_bound:
  assumes "length images \<le> 65535"
    and "\<forall>f \<in> set images. 0 \<le> width f \<and> 0 \<le> height f \<and> 0 \<le> bit_count f \<and> bit_count f \<le> 65535"
    and "6 + 16 * int (length images) + sum_list (map (\<lambda>f. int (length (data f))) images)
           \<le> 4294967295"
  shows "container_fits images"
proof -
  have pl: "payload_len = (\<lambda>f. int (length (data f)))"
    by (rule ext) (simp add: payload_len_def)
  have "mset (map payload_len (ordered images)) = mset (map payload_len images)"
    by (simp add: ordered_def)
  then have "sum_list (map payload_len (ordered images)) = sum_list (map payload_len images)"
    by (metis sum_mset_sum_list)
  then have "6 + 16 * int (length images) + sum_list (map payload_len (ordered images))
      < 4294967296"
    using assms(3) by (simp add: pl)
  moreover have "\<forall>f \<in> set (ordered images).
      0 \<le> width f \<and> 0 \<le> height f \<and> 0 \<le> bit_count f \<and> bit_count f < 65536"
    using assms(2) by (auto simp: ordered_def)
  ultimately have "directory_fits (ordered images) (6 + 16 * int (length images))"
    by (intro directory_fits_bound) simp_all
  then show ?thesis using assms(1) by (simp add: container_fits_def)
qed

section \<open>Properties of the collection loop\<close>

lemma load_loop_decoded:
  "broken_errors xs = [] \<Longrightarrow>
   load_loop xs size_map = Inr (collect_loop (image_files xs) size_map)"
proof (induction xs arbitrary: size_map)
  case Nil
  then show ?case by simp
next
  case (Cons png rest)
  then obtain f where f: "snd png = Image_File f" and r: "broken_errors rest = []"
    by (cases "snd png") simp_all
  show ?case
    using Cons.IH [OF r] f
    by (simp add: Let_def convert_def is_square_def key_of_def frame_of_def)
qed

lemma load_loop_broken:
  "broken_errors xs = e # es \<Longrightarrow> load_loop xs size_map = Inl e"
proof (induction xs arbitrary: size_map)
  case Nil
  then show ?case by simp
next
  case (Cons png rest)
  show ?case
  proof (cases "snd png")
    case (Image_File f)
    with Cons.prems have "broken_errors rest = e # es" by simp
    then have "load_loop rest sm = Inl e" for sm by (rule Cons.IH)
    then show ?thesis using Image_File by (simp add: Let_def)
  next
    case (Broken x)
    with Cons.prems show ?thesis by simp
  qed
qed

lemma load_loop_eq:
  "load_loop xs size_map =
     (case broken_errors xs of
        [] \<Rightarrow> Inr (collect_loop (image_files xs) size_map)
      | e # rest \<Rightarrow> Inl e)"
  by (cases "broken_errors xs") (simp_all add: load_loop_decoded load_loop_broken)

lemma collect_loop_append:
  "collect_loop (xs @ ys) size_map = collect_loop ys (collect_loop xs size_map)"
  by (induction xs arbitrary: size_map) simp_all

lemma collect_loop_keys:
  "fst ` set (collect_loop xs size_map) =
     fst ` set size_map \<union> (\<lambda>p. key_of (snd p)) ` {p \<in> set xs. is_square (snd p)}"
proof (induction xs arbitrary: size_map)
  case Nil
  then show ?case by simp
next
  case (Cons png rest)
  show ?case
    using Cons.IH by (auto simp: dom_update)
qed

lemma collect_loop_distinct:
  "distinct (map fst size_map) \<Longrightarrow> distinct (map fst (collect_loop xs size_map))"
  by (induction xs arbitrary: size_map) (simp_all add: distinct_update)

lemma collect_loop_untouched:
  "\<forall>q \<in> set xs. is_square (snd q) \<longrightarrow> key_of (snd q) \<noteq> k \<Longrightarrow>
   map_of (collect_loop xs size_map) k = map_of size_map k"
  by (induction xs arbitrary: size_map) (auto simp: update_conv')

lemma set_update_subset:
  "set (AList.update k v al) \<subseteq> insert (k, v) (set al)"
  by (induction al) auto

lemma collect_loop_values:
  assumes "\<forall>(k, f) \<in> set size_map. \<exists>p \<in> set ps. is_square (snd p) \<and> k = key_of (snd p) \<and> f = frame_of (snd p)"
    and "set xs \<subseteq> set ps"
  shows "\<forall>(k, f) \<in> set (collect_loop xs size_map).
           \<exists>p \<in> set ps. is_square (snd p) \<and> k = key_of (snd p) \<and> f = frame_of (snd p)"
  using assms
proof (induction xs arbitrary: size_map)
  case Nil
  then show ?case by simp
next
  case (Cons png rest)
  show ?case
  proof (cases "is_square (snd png)")
    case True
    let ?sm = "AList.update (key_of (snd png)) (frame_of (snd png)) size_map"
    have "set ?sm \<subseteq> insert (key_of (snd png), frame_of (snd png)) (set size_map)"
      by (rule set_update_subset)
    moreover have "png \<in> set ps" using Cons.prems(2) by simp
    ultimately have "\<forall>(k, f) \<in> set ?sm.
        \<exists>p \<in> set ps. is_square (snd p) \<and> k = key_of (snd p) \<and> f = frame_of (snd p)"
      using Cons.prems(1) True by auto
    moreover have "set rest \<subseteq> set ps" using Cons.prems(2) by simp
    ultimately have "\<forall>(k, f) \<in> set (collect_loop rest ?sm).
        \<exists>p \<in> set ps. is_square (snd p) \<and> k = key_of (snd p) \<and> f = frame_of (snd p)"
      by (rule Cons.IH)
    then show ?thesis using True by simp
  next
    case False
    have "set rest \<subseteq> set ps" using Cons.prems(2) by simp
    with Cons.prems(1) have "\<forall>(k, f) \<in> set (collect_loop rest size_map).
        \<exists>p \<in> set ps. is_square (snd p) \<and> k = key_of (snd p) \<and> f = frame_of (snd p)"
      by (rule Cons.IH)
    then show ?thesis using False by simp
  qed
qed

lemma lookup_all_present:
  "set keys \<subseteq> fst ` set size_map \<Longrightarrow>
   lookup_all size_map keys = Inr (map (\<lambda>k. the (map_of size_map k)) keys)"
proof (induction keys)
  case Nil
  then show ?case by simp
next
  case (Cons key keys)
  from Cons.prems have "key \<in> fst ` set size_map" by simp
  then obtain frame where "map_of size_map key = Some frame"
    by (metis map_of_eq_None_iff not_Some_eq)
  moreover from Cons have "lookup_all size_map keys = Inr (map (\<lambda>k. the (map_of size_map k)) keys)"
    by simp
  ultimately show ?case by simp
qed

lemma collected_keys:
  "fst ` set (collected folder) = (\<lambda>p. key_of (snd p)) ` set (square_pngs folder)"
  by (simp add: collected_def collect_loop_keys square_pngs_def)

lemma collected_empty_iff: "collected folder = [] \<longleftrightarrow> square_pngs folder = []"
proof -
  have "collected folder = [] \<longleftrightarrow> fst ` set (collected folder) = {}" by simp
  also have "\<dots> \<longleftrightarrow> square_pngs folder = []" unfolding collected_keys by simp
  finally show ?thesis .
qed

lemma collected_frames_empty_iff:
  "collected_frames folder = [] \<longleftrightarrow> square_pngs folder = []"
proof -
  have "length (collected_frames folder) = length (collected folder)"
    by (simp add: collected_frames_def)
  then have "collected_frames folder = [] \<longleftrightarrow> collected folder = []"
    by (simp only: length_0_conv [symmetric])
  then show ?thesis by (simp add: collected_empty_iff)
qed

text \<open>
  The result of \<^verbatim>\<open>load_square_pngs\<close> in every case: the missing path, the first entry
  that cannot be opened or decoded, no square file, and the frame list.
\<close>

lemma load_square_pngs_eq:
  "load_square_pngs folder =
     (if folder = Missing then Inl FileNotFoundError
      else
        case undecodable folder of
          e # rest \<Rightarrow> Inl e
        | [] \<Rightarrow>
            if square_pngs folder = [] then Inl ValueError
            else Inr (collected_frames folder))"
proof -
  have ex: "path_exists folder \<longleftrightarrow> folder \<noteq> Missing" by (cases folder) simp_all
  have lk: "lookup_all (collected folder) (sort (map fst (collected folder))) =
      Inr (collected_frames folder)"
    unfolding collected_frames_def by (rule lookup_all_present) simp
  have loop: "load_loop (sort_key fst (glob_png folder)) [] =
      (case undecodable folder of [] \<Rightarrow> Inr (collected folder) | e # rest \<Rightarrow> Inl e)"
    unfolding load_loop_eq undecodable_def visited_def collected_def by (rule refl)
  show ?thesis
    unfolding load_square_pngs_def ex loop
    using lk collected_empty_iff [of folder]
    by (simp split: list.splits)
qed

lemma undecodable_no_folder [simp]:
  "undecodable Missing = []" "undecodable Not_Folder = []"
  by (simp_all add: undecodable_def visited_def glob_png_def)

lemma square_pngs_no_folder [simp]:
  "square_pngs Missing = []" "square_pngs Not_Folder = []"
  by (simp_all add: square_pngs_def visited_def glob_png_def)

lemma collected_distinct: "distinct (map fst (collected folder))"
  by (simp add: collected_def collect_loop_distinct)

lemma collected_lookup:
  assumes "k \<in> fst ` set (collected folder)"
  shows "\<exists>p \<in> set (square_pngs folder).
           k = key_of (snd p) \<and> the (map_of (collected folder) k) = frame_of (snd p)"
proof -
  from assms obtain f where f: "map_of (collected folder) k = Some f"
    by (metis map_of_eq_None_iff not_Some_eq)
  then have "(k, f) \<in> set (collected folder)" by (rule map_of_SomeD)
  moreover have "\<forall>(k, f) \<in> set (collected folder).
      \<exists>p \<in> set (image_files (visited folder)).
        is_square (snd p) \<and> k = key_of (snd p) \<and> f = frame_of (snd p)"
    unfolding collected_def by (rule collect_loop_values) simp_all
  ultimately obtain p where "p \<in> set (image_files (visited folder))"
      "is_square (snd p)" "k = key_of (snd p)" "f = frame_of (snd p)"
    by blast
  then have "p \<in> set (square_pngs folder)" by (simp add: square_pngs_def)
  with \<open>k = key_of (snd p)\<close> \<open>f = frame_of (snd p)\<close> f show ?thesis by auto
qed

lemma square_pngs_square: "p \<in> set (square_pngs folder) \<Longrightarrow> is_square (snd p)"
  by (simp add: square_pngs_def)

lemma collected_key_diagonal:
  "k \<in> fst ` set (collected folder) \<Longrightarrow> fst k = snd k"
  using collected_lookup [of k folder] square_pngs_square
  by (auto simp: key_of_def is_square_def)

lemma collected_width:
  "k \<in> fst ` set (collected folder) \<Longrightarrow> width (the (map_of (collected folder) k)) = fst k"
  using collected_lookup [of k folder] by (auto simp: key_of_def frame_of_def)

lemma collected_frames_widths:
  "map width (collected_frames folder) = map fst (sort (map fst (collected folder)))"
  by (simp add: collected_frames_def collected_width)

lemma collected_frames_ascending:
  "sorted_wrt (<) (map width (collected_frames folder))"
proof -
  let ?keys = "sort (map fst (collected folder))"
  have "sorted_wrt (<) ?keys"
    using collected_distinct [of folder] by (simp add: strict_sorted_iff)
  moreover have "fst a < fst b"
    if "a \<in> set ?keys" "b \<in> set ?keys" "a < b" for a b
  proof -
    from that have "fst a = snd a" "fst b = snd b"
      using collected_key_diagonal [of _ folder] by simp_all
    with that(3) show ?thesis by (cases a, cases b) (auto simp: less_prod_def)
  qed
  ultimately have "sorted_wrt (\<lambda>a b. fst a < fst b) ?keys"
    by (rule sorted_wrt_mono_rel [rotated])
  then show ?thesis
    unfolding collected_frames_widths by (simp add: sorted_wrt_map)
qed

lemma collected_frames_ordered: "ordered (collected_frames folder) = collected_frames folder"
proof -
  have "sorted (map width (collected_frames folder))"
    using collected_frames_ascending [of folder] by (simp add: strict_sorted_iff)
  then show ?thesis unfolding ordered_def by (rule sort_key_id_if_sorted)
qed

lemma collected_frame_of:
  assumes "f \<in> set (collected_frames folder)"
  shows "\<exists>p \<in> set (square_pngs folder). f = frame_of (snd p)"
proof -
  from assms obtain k where "k \<in> fst ` set (collected folder)"
      "f = the (map_of (collected folder) k)"
    by (auto simp: collected_frames_def)
  then show ?thesis using collected_lookup [of k folder] by auto
qed

text \<open>Every frame the collection returns has bit depth 32, whatever the source image.\<close>

lemma collected_frames_bit_count:
  "f \<in> set (collected_frames folder) \<Longrightarrow> bit_count f = 32"
  using collected_frame_of [of f folder]
  by (auto simp: frame_of_def getbands_def convert_def)

lemma collected_frames_nonneg:
  "f \<in> set (collected_frames folder) \<Longrightarrow> 0 \<le> width f \<and> 0 \<le> height f"
  using collected_frame_of [of f folder] by (auto simp: frame_of_def)

text \<open>
  The payload is settled by the last file of a resolution: after the loop the
  dictionary holds, under that resolution, the frame of the last square file that has
  it, and the frame list holds no other frame of that width.
\<close>

lemma collected_last_wins:
  assumes "image_files (visited folder) = before @ later # after"
    and "is_square (snd later)"
    and "\<forall>q \<in> set after. is_square (snd q) \<longrightarrow> key_of (snd q) \<noteq> key_of (snd later)"
  shows "map_of (collected folder) (key_of (snd later)) = Some (frame_of (snd later))"
proof -
  let ?k = "key_of (snd later)" and ?v = "frame_of (snd later)"
  have "collected folder = collect_loop after (AList.update ?k ?v (collect_loop before []))"
    unfolding collected_def assms(1) collect_loop_append using assms(2) by simp
  then have "map_of (collected folder) ?k = map_of (AList.update ?k ?v (collect_loop before [])) ?k"
    using collect_loop_untouched [OF assms(3)] by simp
  then show ?thesis by (simp add: update_conv')
qed

lemma collected_frames_last_wins:
  assumes "image_files (visited folder) = before @ later # after"
    and "is_square (snd later)"
    and "\<forall>q \<in> set after. is_square (snd q) \<longrightarrow> key_of (snd q) \<noteq> key_of (snd later)"
  shows "frame_of (snd later) \<in> set (collected_frames folder)"
    and "\<forall>frame \<in> set (collected_frames folder).
           width frame = int (img_width (decoded (snd later))) \<longrightarrow> frame = frame_of (snd later)"
proof -
  let ?k = "key_of (snd later)" and ?v = "frame_of (snd later)"
  have m: "map_of (collected folder) ?k = Some ?v"
    using assms by (rule collected_last_wins)
  then have "(?k, ?v) \<in> set (collected folder)" by (rule map_of_SomeD)
  then have k: "?k \<in> fst ` set (collected folder)" by force
  then have "the (map_of (collected folder) ?k) \<in> set (collected_frames folder)"
    by (simp add: collected_frames_def)
  then show "?v \<in> set (collected_frames folder)" by (simp add: m)
  show "\<forall>frame \<in> set (collected_frames folder).
           width frame = int (img_width (decoded (snd later))) \<longrightarrow> frame = ?v"
  proof (intro ballI impI)
    fix frame
    assume "frame \<in> set (collected_frames folder)"
      and w: "width frame = int (img_width (decoded (snd later)))"
    then obtain k' where k': "k' \<in> fst ` set (collected folder)"
        and f: "frame = the (map_of (collected folder) k')"
      by (auto simp: collected_frames_def)
    have "fst k' = int (img_width (decoded (snd later)))"
      using collected_width [OF k'] w f by simp
    moreover have "snd k' = fst k'" using collected_key_diagonal [OF k'] by simp
    ultimately have "k' = ?k"
      using assms(2) by (cases k') (simp add: key_of_def is_square_def)
    then show "frame = ?v" using f m by simp
  qed
qed

text \<open>The concrete folders.\<close>

lemma icon_folder_visited:
  "visited (Folder icon_folder) =
     [(''a.png'', Image_File rgb_icon), (''b.png'', Image_File rgba_icon),
      (''large.png'', Image_File large_icon), (''wide.png'', Image_File wide_image)]"
  by (simp add: visited_def icon_folder_def glob_png_def matches_png_def
      less_eq_char_def less_char_def)

lemma icon_folder_undecodable: "undecodable (Folder icon_folder) = []"
  by (simp add: undecodable_def icon_folder_visited)

lemma icon_folder_square:
  "square_pngs (Folder icon_folder) =
     [(''a.png'', rgb_icon), (''b.png'', rgba_icon), (''large.png'', large_icon)]"
  unfolding square_pngs_def icon_folder_visited
  by (simp add: is_square_def rgb_icon_def rgba_icon_def large_icon_def wide_image_def)

lemma icon_folder_frames: "load_square_pngs (Folder icon_folder) = Inr icon_frames"
  unfolding load_square_pngs_def
  by (simp add: icon_folder_visited [unfolded visited_def] icon_frames_def Let_def rgb_icon_def
      rgba_icon_def large_icon_def wide_image_def convert_def getbands_def)

lemma icon_frames_container: "container icon_frames = Inr icon_container"
  by (simp add: icon_frames_def icon_container_def container_def write_ico_build_def
      ordered_def pack_entry_def pack_value_def width_byte_def height_byte_def
      numeral_2_eq_2 numeral_Bit0 [of "num.Bit0 num.One", where ?'a = nat])

lemma no_square_folder_undecodable: "undecodable (Folder no_square_folder) = []"
  by (simp add: undecodable_def visited_def no_square_folder_def glob_png_def matches_png_def)

lemma no_square_folder_square: "square_pngs (Folder no_square_folder) = []"
  by (simp add: square_pngs_def visited_def no_square_folder_def glob_png_def matches_png_def
      is_square_def wide_image_def)

lemma junk_folder_visited:
  "visited (Folder junk_folder) =
     [(''icon.png'', Image_File rgb_icon), (''junk.png'', Broken UnidentifiedImageError)]"
  by (simp add: visited_def junk_folder_def glob_png_def matches_png_def
      less_eq_char_def less_char_def)

lemma large_folder_frames: "load_square_pngs (Folder large_folder) = Inr large_frames"
  unfolding load_square_pngs_def
  by (simp add: large_folder_def large_frames_def glob_png_def matches_png_def
      less_eq_char_def less_char_def Let_def icon_256_def icon_512_def convert_def getbands_def)

lemma large_frames_container: "container large_frames = Inr large_container"
  by (simp add: large_frames_def large_container_def container_def write_ico_build_def
      ordered_def pack_entry_def pack_value_def width_byte_def height_byte_def
      numeral_2_eq_2 numeral_Bit0 [of "num.Bit0 num.One", where ?'a = nat])

section \<open>The claims about the serializer\<close>

text \<open>
  C1. For a non-empty frame list, in every container the serializer writes the 32-bit
  payload-offset field of directory entry \<open>k\<close> is \<open>6 + 16 * N\<close> plus the payload
  lengths of the entries before \<open>k\<close>, \<open>N\<close> being the frame count; the size field is
  the payload's length, and the payload lies at that offset: the payloads are packed
  contiguously, without padding, in directory order. The serializer does write a
  container whenever the list has at most 65535 frames with non-negative dimensions
  and bit counts in 0..65535 and the container is shorter than \<open>2 ^ 32\<close> bytes.
\<close>

theorem write_ico_offsets:
  assumes "images \<noteq> []"
  shows "(length images \<le> 65535 \<and>
          (\<forall>frame \<in> set images. 0 \<le> width frame \<and> 0 \<le> height frame \<and>
             0 \<le> bit_count frame \<and> bit_count frame \<le> 65535) \<and>
          6 + 16 * int (length images) +
            sum_list (map (\<lambda>frame. int (length (data frame))) images) \<le> 4294967295 \<longrightarrow>
          (\<exists>content. container images = Inr content)) \<and>
         (\<forall>content k. container images = Inr content \<and> k < length images \<longrightarrow>
            entry_offset content k =
              6 + 16 * int (length images) +
              sum_list (map (\<lambda>frame. int (length (data frame))) (take k (ordered images))) \<and>
            entry_size content k = int (length (data (ordered images ! k))) \<and>
            take (nat (entry_size content k)) (drop (nat (entry_offset content k)) content) =
              data (ordered images ! k))"
proof (intro conjI impI allI)
  assume "length images \<le> 65535 \<and>
          (\<forall>frame \<in> set images. 0 \<le> width frame \<and> 0 \<le> height frame \<and>
             0 \<le> bit_count frame \<and> bit_count frame \<le> 65535) \<and>
          6 + 16 * int (length images) +
            sum_list (map (\<lambda>frame. int (length (data frame))) images) \<le> 4294967295"
  then have "container_fits images" by (intro container_fits_bound) blast+
  then show "\<exists>content. container images = Inr content"
    by (auto simp: container_fits_eq)
next
  fix content k
  assume a: "container images = Inr content \<and> k < length images"
  then have c: "container images = Inr content" and k: "k < length images" by blast+
  have pl: "payload_len = (\<lambda>frame. int (length (data frame)))"
    by (rule ext) (simp add: payload_len_def)
  have off: "entry_offset content k =
      packed_offset (6 + 16 * int (length images)) (ordered images) k"
    using c k by (rule container_entry_fields(6))
  have sz: "entry_size content k = payload_len (ordered images ! k)"
    using c k by (rule container_entry_fields(5))
  have pay: "take (length (data (ordered images ! k)))
      (drop (nat (entry_offset content k)) content) = data (ordered images ! k)"
    unfolding off using c k by (rule container_payload)
  show "entry_offset content k =
      6 + 16 * int (length images) +
      sum_list (map (\<lambda>frame. int (length (data frame))) (take k (ordered images)))"
    using off by (simp add: packed_offset_def pl)
  show "entry_size content k = int (length (data (ordered images ! k)))"
    using sz by (simp add: pl)
  show "take (nat (entry_size content k)) (drop (nat (entry_offset content k)) content) =
      data (ordered images ! k)"
    using pay sz by (simp add: pl)
qed

theorem write_ico_offsets_witness:
  "example_frames \<noteq> [] \<and> length example_frames \<le> 65535 \<and>
   6 + 16 * int (length example_frames) +
     sum_list (map (\<lambda>frame. int (length (data frame))) example_frames) \<le> 4294967295 \<and>
   (\<exists>content. container example_frames = Inr content \<and>
      entry_offset content 0 = 38 \<and> entry_offset content 1 = 40 \<and>
      entry_size content 1 = 3 \<and> take 3 (drop 40 content) = [3, 4, 5])"
proof -
  have h1: "example_frames \<noteq> []" by (simp add: example_frames_def)
  have b: "length example_frames \<le> 65535 \<and>
     (\<forall>frame \<in> set example_frames. 0 \<le> width frame \<and> 0 \<le> height frame \<and>
        0 \<le> bit_count frame \<and> bit_count frame \<le> 65535) \<and>
     6 + 16 * int (length example_frames) +
       sum_list (map (\<lambda>frame. int (length (data frame))) example_frames) \<le> 4294967295"
    by (simp add: example_frames_def)
  note w = write_ico_offsets [OF h1]
  from w b obtain content where c: "container example_frames = Inr content" by blast
  have o: "ordered example_frames = example_frames"
    by (simp add: ordered_def example_frames_def)
  have k0: "(0::nat) < length example_frames" and k1: "(1::nat) < length example_frames"
    by (simp_all add: example_frames_def)
  from w c k0 have "entry_offset content 0 =
      6 + 16 * int (length example_frames) +
      sum_list (map (\<lambda>frame. int (length (data frame))) (take 0 (ordered example_frames)))"
    by blast
  then have o0: "entry_offset content 0 = 38" by (simp add: example_frames_def)
  from w c k1 have "entry_offset content 1 =
      6 + 16 * int (length example_frames) +
      sum_list (map (\<lambda>frame. int (length (data frame))) (take 1 (ordered example_frames)))"
    by blast
  then have o1: "entry_offset content 1 = 40" by (simp add: o) (simp add: example_frames_def)
  from w c k1 have "entry_size content 1 = int (length (data (ordered example_frames ! 1)))"
    by blast
  then have s1: "entry_size content 1 = 3" by (simp add: o) (simp add: example_frames_def)
  from w c k1 have "take (nat (entry_size content 1)) (drop (nat (entry_offset content 1)) content) =
      data (ordered example_frames ! 1)"
    by blast
  then have "take (nat 3) (drop (nat 40) content) = data (example_frames ! 1)"
    unfolding o1 s1 o .
  then have p1: "take 3 (drop 40 content) = [3, 4, 5]" by (simp add: example_frames_def)
  have "\<exists>content. container example_frames = Inr content \<and>
      entry_offset content 0 = 38 \<and> entry_offset content 1 = 40 \<and>
      entry_size content 1 = 3 \<and> take 3 (drop 40 content) = [3, 4, 5]"
    using c o0 o1 s1 p1 by (intro exI [of _ content] conjI)
  with h1 b show ?thesis by (intro conjI) blast+
qed

text \<open>
  C2. The frames (16, 16, 24 bits, a payload of 50 bytes) and (32, 32, 32 bits, a payload
  of 120 bytes) serialize to a container whose header is \<open>00 00 01 00 02 00\<close>, whose
  entry 0 has width 16, height 16, planes 1, bit count 24, size 50 and offset 38, whose
  entry 1 has width 32, height 32, planes 1, bit count 32, size 120 and offset 88, and
  whose length is 208 bytes.
\<close>

theorem write_ico_example:
  assumes "length A = 50" and "length B = 120"
  shows "\<exists>content.
    container [\<lparr>width = 16, height = 16, bit_count = 24, data = A\<rparr>,
               \<lparr>width = 32, height = 32, bit_count = 32, data = B\<rparr>] = Inr content \<and>
    take 6 content = [0, 0, 1, 0, 2, 0] \<and>
    entry_width_byte content 0 = 16 \<and> entry_height_byte content 0 = 16 \<and>
    entry_planes content 0 = 1 \<and> entry_bit_count content 0 = 24 \<and>
    entry_size content 0 = 50 \<and> entry_offset content 0 = 38 \<and>
    entry_width_byte content 1 = 32 \<and> entry_height_byte content 1 = 32 \<and>
    entry_planes content 1 = 1 \<and> entry_bit_count content 1 = 32 \<and>
    entry_size content 1 = 120 \<and> entry_offset content 1 = 88 \<and>
    length content = 208"
proof -
  let ?a = "\<lparr>width = 16, height = 16, bit_count = 24, data = A\<rparr>"
  let ?b = "\<lparr>width = 32, height = 32, bit_count = 32, data = B\<rparr>"
  let ?images = "[?a, ?b]"
  have o: "ordered ?images = ?images" by (simp add: ordered_def)
  have fits: "container_fits ?images"
    using assms by (simp add: container_fits_def o entry_fits_def payload_len_def)
  define content where "content =
    header_bytes (length ?images) @ directory (ordered ?images) (6 + 16 * int (length ?images)) @
    concat (map data (ordered ?images))"
  have c: "container ?images = Inr content"
    unfolding content_def using fits by (rule container_fits_eq)
  have k0: "0 < length ?images" and k1: "1 < length ?images" by simp_all
  have hdr: "take 6 content = [0, 0, 1, 0, 2, 0]"
    by (simp add: content_def header_bytes_def numeral_2_eq_2)
  have len: "length content = 208"
    using container_length [OF c] assms by (simp add: o payload_len_def)
  note f0 = container_entry_fields [OF c k0, unfolded o]
  note f1 = container_entry_fields [OF c k1, unfolded o]
  have e0: "entry_width_byte content 0 = 16" "entry_height_byte content 0 = 16"
    "entry_planes content 0 = 1" "entry_bit_count content 0 = 24"
    "entry_size content 0 = 50" "entry_offset content 0 = 38"
    using f0 assms by (simp_all add: width_byte_def height_byte_def payload_len_def)
  have e1: "entry_width_byte content 1 = 32" "entry_height_byte content 1 = 32"
    "entry_planes content 1 = 1" "entry_bit_count content 1 = 32"
    "entry_size content 1 = 120" "entry_offset content 1 = 88"
    using f1 assms
    by (simp_all add: width_byte_def height_byte_def payload_len_def packed_offset_def)
  from c hdr e0 e1 len show ?thesis by blast
qed

theorem write_ico_example_witness:
  "length (replicate 50 (0::byte)) = 50 \<and> length (replicate 120 (1::byte)) = 120 \<and>
   (\<exists>content.
    container [\<lparr>width = 16, height = 16, bit_count = 24, data = replicate 50 0\<rparr>,
               \<lparr>width = 32, height = 32, bit_count = 32, data = replicate 120 1\<rparr>] = Inr content \<and>
    take 6 content = [0, 0, 1, 0, 2, 0] \<and>
    entry_width_byte content 0 = 16 \<and> entry_height_byte content 0 = 16 \<and>
    entry_planes content 0 = 1 \<and> entry_bit_count content 0 = 24 \<and>
    entry_size content 0 = 50 \<and> entry_offset content 0 = 38 \<and>
    entry_width_byte content 1 = 32 \<and> entry_height_byte content 1 = 32 \<and>
    entry_planes content 1 = 1 \<and> entry_bit_count content 1 = 32 \<and>
    entry_size content 1 = 120 \<and> entry_offset content 1 = 88 \<and>
    length content = 208)"
proof -
  have a: "length (replicate 50 (0::byte)) = 50" by simp
  have b: "length (replicate 120 (1::byte)) = 120" by simp
  from a b write_ico_example [OF a b] show ?thesis by (intro conjI)
qed

text \<open>
  C4, as the claim states it, fails: a frame of width 512 gets the width byte 0, which
  a reader takes for 256, not for 512. The frames of width 256 and of width 512 with
  the same payload serialize to the same bytes.
\<close>

theorem dimension_roundtrip_counterexample:
  "256 \<le> width frame_512 \<and> container [frame_512] = Inr container_256 \<and>
   entry_width_byte container_256 0 = 0 \<and>
   reader_dimension (entry_width_byte container_256 0) \<noteq> width frame_512"
  using container_frame_512
  by (simp add: frame_512_def container_256_def entry_width_byte_def field_at_def
      reader_dimension_def)

text \<open>
  C4, amended. In every container the serializer writes, the width byte of each
  directory entry is the frame's width when that is below 256 and 0 otherwise, and
  likewise the height byte; a reader that takes the byte 0 for 256 recovers the frame's
  dimension exactly when the dimension lies between 1 and 256.
\<close>

theorem write_ico_dimension_bytes:
  assumes "container images = Inr content" and "k < length images"
  shows "entry_width_byte content k =
           (if width (ordered images ! k) < 256 then width (ordered images ! k) else 0) \<and>
         entry_height_byte content k =
           (if height (ordered images ! k) < 256 then height (ordered images ! k) else 0) \<and>
         (reader_dimension (entry_width_byte content k) = width (ordered images ! k) \<longleftrightarrow>
            0 < width (ordered images ! k) \<and> width (ordered images ! k) \<le> 256) \<and>
         (reader_dimension (entry_height_byte content k) = height (ordered images ! k) \<longleftrightarrow>
            0 < height (ordered images ! k) \<and> height (ordered images ! k) \<le> 256)"
proof -
  let ?f = "ordered images ! k"
  have w: "entry_width_byte content k = width_byte ?f"
    using assms by (rule container_entry_fields(1))
  have h: "entry_height_byte content k = height_byte ?f"
    using assms by (rule container_entry_fields(2))
  have "entry_fits ?f (packed_offset (6 + 16 * int (length images)) (ordered images) k)"
    using assms by (rule container_nth_fits)
  then have nn: "0 \<le> width ?f" "0 \<le> height ?f" by (simp_all add: entry_fits_def)
  show ?thesis
    unfolding w h using nn by (auto simp: width_byte_def height_byte_def reader_dimension_def)
qed

theorem write_ico_dimension_bytes_witness:
  "container [frame_256] = Inr container_256 \<and> (0::nat) < length [frame_256] \<and>
   entry_width_byte container_256 0 = 0 \<and>
   reader_dimension (entry_width_byte container_256 0) = 256"
proof -
  have k: "(0::nat) < length [frame_256]" by simp
  have o: "ordered [frame_256] ! 0 = frame_256" by (simp add: ordered_def)
  note w = write_ico_dimension_bytes [OF container_frame_256 k, unfolded o]
  have f: "width frame_256 = 256" by (simp add: frame_256_def)
  from w have "entry_width_byte container_256 0 =
      (if width frame_256 < 256 then width frame_256 else 0)"
    by blast
  then have a: "entry_width_byte container_256 0 = 0" by (simp add: f)
  from w have "reader_dimension (entry_width_byte container_256 0) = width frame_256 \<longleftrightarrow>
      0 < width frame_256 \<and> width frame_256 \<le> 256"
    by blast
  then have b: "reader_dimension (entry_width_byte container_256 0) = 256" by (simp add: f)
  from a b container_frame_256 k show ?thesis by blast
qed

text \<open>
  C9. For frames with pairwise distinct widths the serializer gives the same result,
  the same container bytes and the same effect on the file system, for every
  permutation of its input list.
\<close>

theorem write_ico_permutation:
  assumes "distinct (map width xs)" and "mset ys = mset xs"
  shows "container ys = container xs \<and>
         write_ico ys destination fs = write_ico xs destination fs"
proof -
  have "ordered ys = ordered xs" using assms by (rule ordered_permutation)
  then have "container ys = container xs"
    by (simp only: container_def write_ico_build_def)
  then show ?thesis by (simp add: write_ico_def)
qed

theorem write_ico_permutation_witness:
  "distinct (map width example_frames) \<and> mset (rev example_frames) = mset example_frames \<and>
   rev example_frames \<noteq> example_frames \<and>
   container (rev example_frames) = Inr example_container"
proof -
  have d: "distinct (map width example_frames)" by (simp add: example_frames_def)
  have m: "mset (rev example_frames) = mset example_frames" by simp
  have n: "rev example_frames \<noteq> example_frames" by (simp add: example_frames_def)
  from write_ico_permutation [OF d m] have "container (rev example_frames) = container example_frames"
    by blast
  with d m n container_example show ?thesis by simp
qed




section \<open>The claims about frame collection\<close>

text \<open>
  C3. The claim says that a square source image without an alpha channel gets the bit
  depth 24. The loop tests the bands of the image it has converted to RGBA, not those of
  the source image, so the test always succeeds: the 16 by 16 RGB file below has no
  band \<open>A\<close>, and its frame has bit depth 32.
\<close>

theorem load_square_pngs_rgb_bit_count:
  "img_width (decoded rgb_icon) = img_height (decoded rgb_icon) \<and>
   ''A'' \<notin> set (getbands (decoded rgb_icon)) \<and>
   load_square_pngs (Folder [(''icon_16.png'', Image_File rgb_icon)]) =
     Inr [\<lparr>width = 16, height = 16, bit_count = 32, data = [1, 2, 3]\<rparr>]"
  by (simp add: load_square_pngs_def glob_png_def matches_png_def Let_def rgb_icon_def
      convert_def getbands_def)

text \<open>
  C5, as the claim states it, fails twice. The frames of 256 and of 512 pixels come in
  ascending order, but both directory entries carry the width byte 0, so the widths in
  the directory of the container are not strictly ascending. And a folder that holds a
  square image next to a file that PIL cannot identify returns no frame set: the
  exception of \<^verbatim>\<open>Image.open\<close> propagates.
\<close>

theorem directory_widths_counterexample:
  "load_square_pngs (Folder large_folder) = Inr large_frames \<and>
   map width large_frames = [256, 512] \<and>
   container large_frames = Inr large_container \<and>
   entry_width_byte large_container 0 = 0 \<and> entry_width_byte large_container 1 = 0 \<and>
   reader_dimension (entry_width_byte large_container 0) = 256 \<and>
   reader_dimension (entry_width_byte large_container 1) = 256 \<and>
   square_pngs (Folder junk_folder) = [(''icon.png'', rgb_icon)] \<and>
   load_square_pngs (Folder junk_folder) = Inl UnidentifiedImageError"
proof -
  have "entry_width_byte large_container 0 = 0 \<and> entry_width_byte large_container 1 = 0"
    by (simp add: large_container_def entry_width_byte_def field_at_def)
  moreover have "map width large_frames = [256, 512]" by (simp add: large_frames_def)
  moreover have "square_pngs (Folder junk_folder) = [(''icon.png'', rgb_icon)]"
    by (simp add: square_pngs_def junk_folder_visited is_square_def rgb_icon_def)
  moreover have "load_square_pngs (Folder junk_folder) = Inl UnidentifiedImageError"
    by (simp add: load_square_pngs_eq undecodable_def junk_folder_visited)
  ultimately show ?thesis
    using large_folder_frames large_frames_container by (simp add: reader_dimension_def)
qed

text \<open>
  C5, amended. For every source folder in which every file matching \<^verbatim>\<open>*.png\<close> is
  decoded and at least one is square, frame collection returns a non-empty frame set
  whose widths are strictly ascending, hence without duplicates. The serializer keeps
  that order: it writes a container whenever there are at most 65535 frames and the
  container is shorter than \<open>2 ^ 32\<close> bytes, and in every container it writes, entry
  \<open>k\<close> of the directory carries the size, the bit depth and the payload of frame \<open>k\<close>
  and the width byte of frame \<open>k\<close>, which is the width below 256 and 0 from 256 on.
  The widths a reader takes from the directory are those of the frame set, strictly
  ascending, when every width lies between 1 and 256.
\<close>

theorem load_square_pngs_ascending:
  assumes "undecodable (Folder entries) = []" and "square_pngs (Folder entries) \<noteq> []"
  shows "\<exists>frames. load_square_pngs (Folder entries) = Inr frames \<and> frames \<noteq> [] \<and>
           sorted_wrt (<) (map width frames) \<and> distinct (map width frames) \<and>
           ordered frames = frames \<and>
           (length frames \<le> 65535 \<and>
            6 + 16 * int (length frames) +
              sum_list (map (\<lambda>frame. int (length (data frame))) frames) \<le> 4294967295 \<longrightarrow>
            (\<exists>content. container frames = Inr content)) \<and>
           (\<forall>content. container frames = Inr content \<longrightarrow>
              (\<forall>k < length frames.
                 entry_width_byte content k =
                   (if width (frames ! k) < 256 then width (frames ! k) else 0) \<and>
                 entry_bit_count content k = bit_count (frames ! k) \<and>
                 entry_size content k = int (length (data (frames ! k))) \<and>
                 take (nat (entry_size content k))
                   (drop (nat (entry_offset content k)) content) = data (frames ! k)) \<and>
              ((\<forall>frame \<in> set frames. 0 < width frame \<and> width frame \<le> 256) \<longrightarrow>
                 map (\<lambda>k. reader_dimension (entry_width_byte content k)) [0..<length frames] =
                   map width frames \<and>
                 sorted_wrt (<)
                   (map (\<lambda>k. reader_dimension (entry_width_byte content k))
                      [0..<length frames])))"
proof -
  let ?frames = "collected_frames (Folder entries)"
  have r: "load_square_pngs (Folder entries) = Inr ?frames"
    using assms by (simp add: load_square_pngs_eq)
  have ne: "?frames \<noteq> []" using assms(2) by (simp add: collected_frames_empty_iff)
  have asc: "sorted_wrt (<) (map width ?frames)" by (rule collected_frames_ascending)
  then have d: "distinct (map width ?frames)" by (simp add: strict_sorted_iff)
  have o: "ordered ?frames = ?frames" by (rule collected_frames_ordered)
  have ex: "\<exists>content. container ?frames = Inr content"
    if "length ?frames \<le> 65535 \<and>
        6 + 16 * int (length ?frames) +
          sum_list (map (\<lambda>frame. int (length (data frame))) ?frames) \<le> 4294967295"
  proof -
    have "\<forall>f \<in> set ?frames.
        0 \<le> width f \<and> 0 \<le> height f \<and> 0 \<le> bit_count f \<and> bit_count f \<le> 65535"
      using collected_frames_nonneg [of _ "Folder entries"]
        collected_frames_bit_count [of _ "Folder entries"] by simp
    with that have "container_fits ?frames" by (intro container_fits_bound) blast+
    then show ?thesis by (auto simp: container_fits_eq)
  qed
  have fields: "entry_width_byte content k =
        (if width (?frames ! k) < 256 then width (?frames ! k) else 0) \<and>
      entry_bit_count content k = bit_count (?frames ! k) \<and>
      entry_size content k = int (length (data (?frames ! k))) \<and>
      take (nat (entry_size content k)) (drop (nat (entry_offset content k)) content) =
        data (?frames ! k)"
    if c: "container ?frames = Inr content" and k: "k < length ?frames" for content k
  proof -
    have "entry_size content k = int (length (data (?frames ! k)))"
      using container_entry_fields(5) [OF c k] by (simp add: o payload_len_def)
    moreover have "take (length (data (?frames ! k)))
        (drop (nat (entry_offset content k)) content) = data (?frames ! k)"
      using container_payload [OF c k] container_entry_fields(6) [OF c k] by (simp add: o)
    ultimately show ?thesis
      using container_entry_fields(1,4) [OF c k] by (simp add: o width_byte_def)
  qed
  have reader: "map (\<lambda>k. reader_dimension (entry_width_byte content k)) [0..<length ?frames] =
        map width ?frames \<and>
      sorted_wrt (<)
        (map (\<lambda>k. reader_dimension (entry_width_byte content k)) [0..<length ?frames])"
    if c: "container ?frames = Inr content"
      and small: "\<forall>frame \<in> set ?frames. 0 < width frame \<and> width frame \<le> 256"
    for content
  proof -
    have "reader_dimension (entry_width_byte content k) = width (?frames ! k)"
      if k: "k < length ?frames" for k
    proof -
      have "0 < width (?frames ! k) \<and> width (?frames ! k) \<le> 256"
        using small k by simp
      then show ?thesis using fields [OF c k] by (auto simp: reader_dimension_def)
    qed
    then have "map (\<lambda>k. reader_dimension (entry_width_byte content k)) [0..<length ?frames] =
        map (\<lambda>k. width (?frames ! k)) [0..<length ?frames]"
      by simp
    also have "\<dots> = map width ?frames"
      by (rule nth_equalityI) simp_all
    finally show ?thesis using asc by simp
  qed
  have cont: "\<forall>content. container ?frames = Inr content \<longrightarrow>
      (\<forall>k < length ?frames.
         entry_width_byte content k =
           (if width (?frames ! k) < 256 then width (?frames ! k) else 0) \<and>
         entry_bit_count content k = bit_count (?frames ! k) \<and>
         entry_size content k = int (length (data (?frames ! k))) \<and>
         take (nat (entry_size content k))
           (drop (nat (entry_offset content k)) content) = data (?frames ! k)) \<and>
      ((\<forall>frame \<in> set ?frames. 0 < width frame \<and> width frame \<le> 256) \<longrightarrow>
         map (\<lambda>k. reader_dimension (entry_width_byte content k)) [0..<length ?frames] =
           map width ?frames \<and>
         sorted_wrt (<)
           (map (\<lambda>k. reader_dimension (entry_width_byte content k))
              [0..<length ?frames]))"
    using fields reader by (intro allI impI conjI) blast+
  have exi: "length ?frames \<le> 65535 \<and>
      6 + 16 * int (length ?frames) +
        sum_list (map (\<lambda>frame. int (length (data frame))) ?frames) \<le> 4294967295 \<longrightarrow>
      (\<exists>content. container ?frames = Inr content)"
    using ex by (intro impI)
  show ?thesis
    using r ne asc d o exi cont by (intro exI [of _ ?frames] conjI)
qed

theorem load_square_pngs_ascending_witness:
  "undecodable (Folder icon_folder) = [] \<and> square_pngs (Folder icon_folder) \<noteq> [] \<and>
   load_square_pngs (Folder icon_folder) = Inr icon_frames \<and>
   map width icon_frames = [16, 32] \<and> sorted_wrt (<) (map width icon_frames) \<and>
   ordered icon_frames = icon_frames \<and>
   container icon_frames = Inr icon_container \<and>
   entry_width_byte icon_container 0 = 16 \<and> entry_width_byte icon_container 1 = 32 \<and>
   map (\<lambda>k. reader_dimension (entry_width_byte icon_container k)) [0..<length icon_frames] =
     [16, 32]"
proof -
  have u: "undecodable (Folder icon_folder) = []" by (rule icon_folder_undecodable)
  have h: "square_pngs (Folder icon_folder) \<noteq> []" by (simp add: icon_folder_square)
  have w: "map width icon_frames = [16, 32]" by (simp add: icon_frames_def)
  from load_square_pngs_ascending [OF u h] obtain frames where
    f: "load_square_pngs (Folder icon_folder) = Inr frames"
    and s: "sorted_wrt (<) (map width frames)"
    and o: "ordered frames = frames"
    and c: "\<forall>content. container frames = Inr content \<longrightarrow>
      (\<forall>k < length frames.
         entry_width_byte content k =
           (if width (frames ! k) < 256 then width (frames ! k) else 0) \<and>
         entry_bit_count content k = bit_count (frames ! k) \<and>
         entry_size content k = int (length (data (frames ! k))) \<and>
         take (nat (entry_size content k))
           (drop (nat (entry_offset content k)) content) = data (frames ! k)) \<and>
      ((\<forall>frame \<in> set frames. 0 < width frame \<and> width frame \<le> 256) \<longrightarrow>
         map (\<lambda>k. reader_dimension (entry_width_byte content k)) [0..<length frames] =
           map width frames \<and>
         sorted_wrt (<)
           (map (\<lambda>k. reader_dimension (entry_width_byte content k))
              [0..<length frames]))"
    by blast
  from f have eq: "frames = icon_frames" by (simp add: icon_folder_frames)
  have small: "\<forall>frame \<in> set icon_frames. 0 < width frame \<and> width frame \<le> 256"
    by (simp add: icon_frames_def)
  have k0: "0 < length icon_frames" and k1: "1 < length icon_frames"
    by (simp_all add: icon_frames_def)
  note c' = c [unfolded eq, rule_format, OF icon_frames_container]
  from c' k0 have "entry_width_byte icon_container 0 =
      (if width (icon_frames ! 0) < 256 then width (icon_frames ! 0) else 0)"
    by blast
  then have e0: "entry_width_byte icon_container 0 = 16" by (simp add: icon_frames_def)
  from c' k1 have "entry_width_byte icon_container 1 =
      (if width (icon_frames ! 1) < 256 then width (icon_frames ! 1) else 0)"
    by blast
  then have e1: "entry_width_byte icon_container 1 = 32" by (simp add: icon_frames_def)
  from c' small have "map (\<lambda>k. reader_dimension (entry_width_byte icon_container k))
      [0..<length icon_frames] = map width icon_frames"
    by blast
  then have rd: "map (\<lambda>k. reader_dimension (entry_width_byte icon_container k))
      [0..<length icon_frames] = [16, 32]"
    by (simp only: w)
  from u h f s o e0 e1 rd w icon_frames_container show ?thesis
    unfolding eq by (intro conjI)
qed

text \<open>
  C6. The claim says that of two files of the same resolution the later one's payload
  and bit depth are in the frame set. The payload is the later file's, but the bit
  depth is not: of the two 16 by 16 files below the loop visits \<open>a.png\<close>, which has an
  alpha channel, before \<open>b.png\<close>, which has none and whose bit depth is 24, and the
  one frame it returns has the bytes of \<open>b.png\<close> and the bit depth 32, as has the
  directory entry of the container.
\<close>

theorem load_square_pngs_later_bit_depth:
  "visited (Folder mixed_folder) =
     [(''a.png'', Image_File rgba_icon), (''b.png'', Image_File rgb_icon)] \<and>
   key_of rgba_icon = key_of rgb_icon \<and>
   spec_bit_depth (decoded rgba_icon) = 32 \<and> spec_bit_depth (decoded rgb_icon) = 24 \<and>
   load_square_pngs (Folder mixed_folder) =
     Inr [\<lparr>width = 16, height = 16, bit_count = 32, data = contents rgb_icon\<rparr>] \<and>
   container [\<lparr>width = 16, height = 16, bit_count = 32, data = contents rgb_icon\<rparr>] =
     Inr mixed_container \<and>
   entry_bit_count mixed_container 0 = 32 \<and>
   take 3 (drop 22 mixed_container) = contents rgb_icon"
proof -
  have v: "visited (Folder mixed_folder) =
      [(''a.png'', Image_File rgba_icon), (''b.png'', Image_File rgb_icon)]"
    by (simp add: visited_def mixed_folder_def glob_png_def matches_png_def
        less_eq_char_def less_char_def)
  have l: "load_square_pngs (Folder mixed_folder) =
      Inr [\<lparr>width = 16, height = 16, bit_count = 32, data = contents rgb_icon\<rparr>]"
    unfolding load_square_pngs_def
    by (simp add: v [unfolded visited_def] Let_def rgb_icon_def rgba_icon_def convert_def
        getbands_def)
  have k: "key_of rgba_icon = key_of rgb_icon"
    by (simp add: key_of_def rgb_icon_def rgba_icon_def)
  have d: "spec_bit_depth (decoded rgba_icon) = 32 \<and> spec_bit_depth (decoded rgb_icon) = 24"
    by (simp add: spec_bit_depth_def getbands_def rgb_icon_def rgba_icon_def)
  have c: "container [\<lparr>width = 16, height = 16, bit_count = 32, data = contents rgb_icon\<rparr>] =
      Inr mixed_container"
    by (simp add: rgb_icon_def mixed_container_def container_def write_ico_build_def
        ordered_def pack_entry_def pack_value_def width_byte_def height_byte_def
        numeral_2_eq_2 numeral_Bit0 [of "num.Bit0 num.One", where ?'a = nat])
  have b: "entry_bit_count mixed_container 0 = 32"
    by (simp add: mixed_container_def entry_bit_count_def field_at_def)
  have p: "take 3 (drop 22 mixed_container) = contents rgb_icon"
    by (simp add: mixed_container_def rgb_icon_def)
  from v k d l c b p show ?thesis by (intro conjI) blast+
qed

text \<open>
  C7, as the claim states it, fails. A folder that exists and holds a square image
  next to a file that PIL cannot identify neither fails with \<^verbatim>\<open>ValueError\<close> nor returns
  a frame set: the exception of \<^verbatim>\<open>Image.open\<close> propagates. A dangling link named
  \<^verbatim>\<open>*.png\<close> gives \<^verbatim>\<open>FileNotFoundError\<close> although the folder exists, and a source path
  that is a regular file, so that no such directory exists, gives \<^verbatim>\<open>ValueError\<close>.
\<close>

theorem load_square_pngs_undecodable_counterexample:
  "path_exists (Folder junk_folder) \<and>
   square_pngs (Folder junk_folder) = [(''icon.png'', rgb_icon)] \<and>
   load_square_pngs (Folder junk_folder) = Inl UnidentifiedImageError \<and>
   path_exists (Folder [(''link.png'', Broken FileNotFoundError)]) \<and>
   load_square_pngs (Folder [(''link.png'', Broken FileNotFoundError)]) =
     Inl FileNotFoundError \<and>
   load_square_pngs Not_Folder = Inl ValueError"
proof -
  have "square_pngs (Folder junk_folder) = [(''icon.png'', rgb_icon)]"
    by (simp add: square_pngs_def junk_folder_visited is_square_def rgb_icon_def)
  moreover have "load_square_pngs (Folder junk_folder) = Inl UnidentifiedImageError"
    by (simp add: load_square_pngs_eq undecodable_def junk_folder_visited)
  moreover have "load_square_pngs (Folder [(''link.png'', Broken FileNotFoundError)]) =
      Inl FileNotFoundError"
    by (simp add: load_square_pngs_def glob_png_def matches_png_def)
  moreover have "load_square_pngs Not_Folder = Inl ValueError"
    by (simp add: load_square_pngs_eq)
  ultimately show ?thesis by simp
qed

text \<open>
  C7, amended. Frame collection fails with \<^verbatim>\<open>FileNotFoundError\<close> when the source path
  does not exist. When the path exists and a file matching \<^verbatim>\<open>*.png\<close> cannot be opened
  or decoded, it fails with the exception raised for the first such file in the sorted
  order. When every matching file is decoded, it fails with \<^verbatim>\<open>FileNotFoundError\<close>
  exactly when the path does not exist, with \<^verbatim>\<open>ValueError\<close> exactly when the path
  exists and no matching file is square, which includes a path that is not a folder,
  and in every other case it returns a non-empty frame set without raising.
\<close>

theorem load_square_pngs_errors:
  "(folder = Missing \<longrightarrow> load_square_pngs folder = Inl FileNotFoundError) \<and>
   (folder = Not_Folder \<longrightarrow> load_square_pngs folder = Inl ValueError) \<and>
   (\<forall>e rest. folder \<noteq> Missing \<and> undecodable folder = e # rest \<longrightarrow>
      load_square_pngs folder = Inl e) \<and>
   (undecodable folder = [] \<longrightarrow>
      (load_square_pngs folder = Inl FileNotFoundError \<longleftrightarrow> folder = Missing) \<and>
      (load_square_pngs folder = Inl ValueError \<longleftrightarrow>
         folder \<noteq> Missing \<and> square_pngs folder = []) \<and>
      (folder \<noteq> Missing \<and> square_pngs folder \<noteq> [] \<longrightarrow>
         (\<exists>frames. load_square_pngs folder = Inr frames \<and> frames \<noteq> [])))"
proof (intro conjI impI allI)
  assume "folder = Missing"
  then show "load_square_pngs folder = Inl FileNotFoundError"
    by (simp add: load_square_pngs_eq)
next
  assume "folder = Not_Folder"
  then show "load_square_pngs folder = Inl ValueError"
    by (simp add: load_square_pngs_eq)
next
  fix e rest
  assume "folder \<noteq> Missing \<and> undecodable folder = e # rest"
  then show "load_square_pngs folder = Inl e"
    by (simp add: load_square_pngs_eq)
next
  assume u: "undecodable folder = []"
  show "load_square_pngs folder = Inl FileNotFoundError \<longleftrightarrow> folder = Missing"
    using u by (simp add: load_square_pngs_eq)
  show "load_square_pngs folder = Inl ValueError \<longleftrightarrow>
      folder \<noteq> Missing \<and> square_pngs folder = []"
    using u by (simp add: load_square_pngs_eq)
next
  assume "undecodable folder = []" and "folder \<noteq> Missing \<and> square_pngs folder \<noteq> []"
  then show "\<exists>frames. load_square_pngs folder = Inr frames \<and> frames \<noteq> []"
    by (simp add: load_square_pngs_eq collected_frames_empty_iff)
qed

theorem load_square_pngs_errors_witness:
  "load_square_pngs Missing = Inl FileNotFoundError \<and>
   undecodable (Folder junk_folder) = [UnidentifiedImageError] \<and>
   load_square_pngs (Folder junk_folder) = Inl UnidentifiedImageError \<and>
   undecodable (Folder no_square_folder) = [] \<and>
   square_pngs (Folder no_square_folder) = [] \<and>
   load_square_pngs (Folder no_square_folder) = Inl ValueError \<and>
   undecodable (Folder icon_folder) = [] \<and> square_pngs (Folder icon_folder) \<noteq> [] \<and>
   (\<exists>frames. load_square_pngs (Folder icon_folder) = Inr frames \<and> frames \<noteq> [])"
proof -
  have a: "load_square_pngs Missing = Inl FileNotFoundError"
    using load_square_pngs_errors [of Missing] by blast
  have ju: "undecodable (Folder junk_folder) = [UnidentifiedImageError]"
    by (simp add: undecodable_def junk_folder_visited)
  have j: "load_square_pngs (Folder junk_folder) = Inl UnidentifiedImageError"
    using load_square_pngs_errors [of "Folder junk_folder"] ju by blast
  have b: "load_square_pngs (Folder no_square_folder) = Inl ValueError"
    using load_square_pngs_errors [of "Folder no_square_folder"]
      no_square_folder_undecodable no_square_folder_square by blast
  have h: "square_pngs (Folder icon_folder) \<noteq> []" by (simp add: icon_folder_square)
  have c: "\<exists>frames. load_square_pngs (Folder icon_folder) = Inr frames \<and> frames \<noteq> []"
    using load_square_pngs_errors [of "Folder icon_folder"] icon_folder_undecodable h by blast
  from a ju j b c h no_square_folder_undecodable no_square_folder_square
    icon_folder_undecodable
  show ?thesis by (intro conjI)
qed



end
